theory Spec2Isabelle
  imports Complex_Main "HOL-Library.Word" "HOL-Library.Log_Nat"
begin

unbundle bit_operations_syntax

section \<open>The GPIO lines\<close>

text \<open>
  The engine of \<^verbatim>\<open>softspi.cpp\<close> talks to three lines through the mraa library:
  the handles \<^verbatim>\<open>m_sck\<close> and \<^verbatim>\<open>m_mosi\<close> (outputs) and \<^verbatim>\<open>m_miso\<close> (input).
  The library is not part of the repository, so the lines are modelled as a small world:
  the level last written to each pin, and the log of everything the engine did, in order.
  What an input pin reads is decided by whatever is wired to it; that is a parameter
  \<open>rd\<close> of the engine, a function of the world at the instant of the read.
\<close>

type_synonym u8 = "8 word"
type_synonym u32 = "32 word"

datatype pin = SCK | MOSI | MISO

datatype event =
    GpioWrite pin int
  | GpioRead pin int
  | Spin u32
  | Printf int

record gpio =
  level :: "pin \<Rightarrow> int"
  log :: "event list"

type_synonym wiring = "gpio \<Rightarrow> pin \<Rightarrow> int"

definition mraa_gpio_write :: "gpio \<Rightarrow> pin \<Rightarrow> int \<Rightarrow> gpio" where
  "mraa_gpio_write g p v = g\<lparr>level := (level g)(p := v), log := log g @ [GpioWrite p v]\<rparr>"

definition mraa_gpio_read :: "wiring \<Rightarrow> gpio \<Rightarrow> pin \<Rightarrow> int \<times> gpio" where
  "mraa_gpio_read rd g p = (rd g p, g\<lparr>log := log g @ [GpioRead p (rd g p)]\<rparr>)"

text \<open>
  \<^verbatim>\<open>usleepByCounting(sleepCount)\<close> spins a volatile counter from 1 up to \<^verbatim>\<open>sleepCount\<close>.
  It touches no pin and no field; all that is kept of it is that it ran, and with which count.
\<close>

definition usleepByCounting :: "gpio \<Rightarrow> u32 \<Rightarrow> gpio" where
  "usleepByCounting g sleepCount = g\<lparr>log := log g @ [Spin sleepCount]\<rparr>"

text \<open>The trailing \<^verbatim>\<open>printf("unhandled spi mode %d\n", m_mode)\<close> of \<^verbatim>\<open>writeBit\<close>.\<close>

definition printf_unhandled :: "gpio \<Rightarrow> int \<Rightarrow> gpio" where
  "printf_unhandled g m = g\<lparr>log := log g @ [Printf m]\<rparr>"

section \<open>The device\<close>

text \<open>
  The fields of \<^verbatim>\<open>class SoftSpi\<close>. The class is declared in \<^verbatim>\<open>softspi.h\<close>, which is not
  among the sources, so the types of the fields are read off their uses. A mode is cast
  from a \<^verbatim>\<open>uint32_t\<close>, compared with 0 to 3 and printed with \<^verbatim>\<open>%d\<close>; the polarity is
  assigned 0 or 1 and compared with 0: both are modelled by their integer value. The
  sleep counts are passed to \<^verbatim>\<open>usleepByCounting(uint32_t)\<close> and are kept as 32-bit words.
  The three pin handles are the constants \<open>SCK\<close>, \<open>MOSI\<close> and \<open>MISO\<close>.
\<close>

record SoftSpi =
  m_frequency :: u32
  m_mode :: int
  m_cpol :: int
  m_clockSleepCount :: u32
  m_betweenByteSleepCount :: u32

subsection \<open>Double-precision arithmetic\<close>

text \<open>
  \<^verbatim>\<open>setFrequency\<close> computes in \<^verbatim>\<open>double\<close>. A finite double is modelled by the
  rational number it denotes, and every operation by the exact result rounded to the
  nearest number with a 53-bit significand, ties to the even significand (the default
  rounding of IEEE 754 binary64). \<open>binade x\<close> is the exponent \<open>e\<close> with
  \<open>2 ^ e \<le> \<bar>x\<bar> < 2 ^ (e + 1)\<close>. The exponent range is not bounded here; the values that
  occur in \<^verbatim>\<open>setFrequency\<close> for a calibration constant below \<open>2 ^ 32\<close> lie between
  \<open>2 ^ - 32\<close> and \<open>2 ^ 32\<close>, far inside the range of normal doubles.
\<close>

type_synonym double = rat

definition round_half_even :: "rat \<Rightarrow> int" where
  "round_half_even q =
     (let n = \<lfloor>q\<rfloor>; r = q - of_int n
      in if r < 1 / 2 then n else if 1 / 2 < r then n + 1 else if even n then n else n + 1)"

definition binade :: "rat \<Rightarrow> int" where
  "binade x =
     (let (p, q) = quotient_of \<bar>x\<bar>; k = bitlen p - bitlen q
      in if 2 powi k \<le> \<bar>x\<bar> then k else k - 1)"

definition double_round :: "rat \<Rightarrow> double" where
  "double_round x =
     (if x = 0 then 0
      else let u = 2 powi (binade x - 52) in of_int (round_half_even (x / u)) * u)"

definition double_of_nat :: "nat \<Rightarrow> double" where
  "double_of_nat n = double_round (of_nat n)"

definition double_mul :: "double \<Rightarrow> double \<Rightarrow> double" where
  "double_mul x y = double_round (x * y)"

text \<open>Division by a divisor other than zero; the caller deals with \<^verbatim>\<open>1.0 / 0.0\<close>.\<close>

definition double_div :: "double \<Rightarrow> double \<Rightarrow> double" where
  "double_div x y = double_round (x / y)"

text \<open>
  The conversion of a \<^verbatim>\<open>double\<close> to \<^verbatim>\<open>int32_t\<close> drops the fraction (towards
  zero); C++ leaves it undefined when the result does not fit, which is \<open>None\<close>.
\<close>

definition double_to_int32 :: "double \<Rightarrow> int option" where
  "double_to_int32 d =
     (let t = (if 0 \<le> d then \<lfloor>d\<rfloor> else \<lceil>d\<rceil>)
      in if - (2 ^ 31) \<le> t \<and> t < 2 ^ 31 then Some t else None)"

subsection \<open>setFrequency\<close>

text \<open>
  \<^verbatim>\<open>LOOPS_PER_SECOND\<close> is a macro of \<^verbatim>\<open>softspi.h\<close>, which is not among the sources: it
  is the first parameter. \<open>clockSleepCount_double\<close> is the value of the expression
  \<^verbatim>\<open>(1.0 / (double)frequency) * ((double)LOOPS_PER_SECOND) / 2.0\<close> for a frequency
  other than zero, evaluated from left to right. For \<^verbatim>\<open>frequency == 0\<close> the quotient
  \<^verbatim>\<open>1.0 / 0.0\<close> is infinite (and the product with a zero constant is not a number), so
  the conversion to \<^verbatim>\<open>int32_t\<close> is undefined: \<open>None\<close>. The count \<^verbatim>\<open>c\<close> is an
  \<^verbatim>\<open>int32_t\<close>; stored into the field it keeps its bits.
\<close>

definition clockSleepCount_double :: "nat \<Rightarrow> u32 \<Rightarrow> double" where
  "clockSleepCount_double LOOPS_PER_SECOND frequency =
     double_div
       (double_mul (double_div 1 (double_of_nat (unat frequency)))
          (double_of_nat LOOPS_PER_SECOND))
       2"

definition setFrequency :: "nat \<Rightarrow> SoftSpi \<Rightarrow> u32 \<Rightarrow> SoftSpi option" where
  "setFrequency LOOPS_PER_SECOND s frequency =
     (let s1 = s\<lparr>m_frequency := frequency\<rparr> in
      if frequency = 0 then None
      else
        case double_to_int32 (clockSleepCount_double LOOPS_PER_SECOND frequency) of
          None \<Rightarrow> None
        | Some c \<Rightarrow>
            let c1 = (if c < 0 then 1 else c)
            in Some (s1\<lparr>m_clockSleepCount := word_of_int c1\<rparr>))"

subsection \<open>setMode\<close>

definition setMode :: "SoftSpi \<Rightarrow> gpio \<Rightarrow> int \<Rightarrow> SoftSpi \<times> gpio" where
  "setMode s g mode =
     (let s1 = s\<lparr>m_mode := mode\<rparr> in
      if m_mode s1 = 2 \<or> m_mode s1 = 3
      then (s1\<lparr>m_cpol := 1\<rparr>, mraa_gpio_write g SCK 1)
      else (s1\<lparr>m_cpol := 0\<rparr>, mraa_gpio_write g SCK 0))"

subsection \<open>writeBit\<close>

text \<open>
  The value of \<^verbatim>\<open>mraa_gpio_read\<close> is an \<^verbatim>\<open>int\<close> stored into a \<^verbatim>\<open>uint8_t\<close>
  (\<open>word_of_int\<close>); the \<^verbatim>\<open>return -1\<close> of the last branch is the byte 255.
\<close>

definition writeBit :: "wiring \<Rightarrow> SoftSpi \<Rightarrow> gpio \<Rightarrow> u8 \<Rightarrow> u8 \<times> gpio" where
  "writeBit rd s g bitv =
     (if m_mode s = 0 \<or> m_mode s = 2 then
        let g1 = mraa_gpio_write g MOSI (if bitv = 0 then 0 else 1);
            g2 = usleepByCounting g1 (m_clockSleepCount s);
            (v, g3) = mraa_gpio_read rd g2 MISO;
            r = (word_of_int v :: u8);
            g4 = mraa_gpio_write g3 SCK (if m_cpol s = 0 then 1 else 0);
            g5 = usleepByCounting g4 (m_clockSleepCount s);
            g6 = mraa_gpio_write g5 SCK (if m_cpol s = 0 then 0 else 1)
        in (r, g6)
      else if m_mode s = 1 \<or> m_mode s = 3 then
        let g1 = mraa_gpio_write g SCK (if m_cpol s = 0 then 1 else 0);
            g2 = mraa_gpio_write g1 MOSI (if bitv = 0 then 0 else 1);
            g3 = usleepByCounting g2 (m_clockSleepCount s);
            g4 = mraa_gpio_write g3 SCK (if m_cpol s = 0 then 0 else 1);
            (v, g5) = mraa_gpio_read rd g4 MISO;
            r = (word_of_int v :: u8);
            g6 = usleepByCounting g5 (m_clockSleepCount s)
        in (r, g6)
      else
        (word_of_int (- 1), printf_unhandled g (m_mode s)))"

subsection \<open>writeByte\<close>

text \<open>
  The loop \<^verbatim>\<open>for(int i = 0; i < 8; i++)\<close>, with the loop variables as arguments.
  \<^verbatim>\<open>byte & 0x80\<close> is 0 or 128, so passing it through \<^verbatim>\<open>int\<close> to the
  \<^verbatim>\<open>uint8_t\<close> parameter of \<^verbatim>\<open>writeBit\<close> keeps its value; the shifts of a
  \<^verbatim>\<open>uint8_t\<close> drop the bit that leaves the byte.
\<close>

function writeByte_loop ::
    "wiring \<Rightarrow> SoftSpi \<Rightarrow> int \<Rightarrow> u8 \<Rightarrow> u8 \<Rightarrow> gpio \<Rightarrow> u8 \<times> gpio" where
  "writeByte_loop rd s i byte result g =
     (if i < 8 then
        let bitv = byte AND 0x80;
            result1 = push_bit 1 result;
            (r, g1) = writeBit rd s g bitv;
            result2 = result1 OR (if r = 0 then 0 else 1);
            byte1 = push_bit 1 byte
        in writeByte_loop rd s (i + 1) byte1 result2 g1
      else (result, g))"
  by pat_completeness auto
termination
  by (relation "measure (\<lambda>(rd, s, i, byte, result, g). nat (8 - i))") auto

definition writeByte :: "wiring \<Rightarrow> SoftSpi \<Rightarrow> gpio \<Rightarrow> u8 \<Rightarrow> u8 \<times> gpio" where
  "writeByte rd s g byte = writeByte_loop rd s 0 byte 0 g"

subsection \<open>write\<close>

text \<open>
  \<^verbatim>\<open>write(buffer, bufferLength)\<close> gets a pointer and a length. The buffer is a list of
  bytes; an access at an index beyond it is undefined in C++ and is \<open>None\<close> here.
  The binding \<^verbatim>\<open>NAN_METHOD(SoftSpi::write)\<close> passes the buffer's own length.
  (\<open>write\<close> is a reserved word of the theory language, hence \<open>SoftSpi_write\<close>.)
\<close>

function write_loop ::
    "wiring \<Rightarrow> SoftSpi \<Rightarrow> u32 \<Rightarrow> u8 list \<Rightarrow> u32 \<Rightarrow> gpio \<Rightarrow> (u8 list \<times> gpio) option" where
  "write_loop rd s i buffer bufferLength g =
     (if i < bufferLength then
        if unat i < length buffer then
          let b = buffer ! unat i;
              (r, g1) = writeByte rd s g b;
              buffer1 = buffer[unat i := r];
              g2 = usleepByCounting g1 (m_betweenByteSleepCount s)
          in write_loop rd s (i + 1) buffer1 bufferLength g2
        else None
      else Some (buffer, g))"
  by pat_completeness auto
termination
proof (relation "measure (\<lambda>(rd, s, i, buffer, bufferLength, g). unat bufferLength - unat i)")
  show "wf (measure (\<lambda>(rd, s, i, buffer, bufferLength, g). unat bufferLength - unat i))"
    by simp
next
  fix rd :: wiring and s :: SoftSpi and i bufferLength :: u32 and buffer :: "u8 list"
    and g :: gpio and x xa xb y xc xd
  assume lt: "i < bufferLength"
  then have "unat i < unat bufferLength"
    by (simp add: word_less_nat_alt)
  moreover have "unat bufferLength < 2 ^ 32"
    using unsigned_less [of bufferLength] by simp
  ultimately have "unat i + unat (1 :: u32) < 2 ^ LENGTH(32)"
    by simp
  then have "unat (i + 1) = unat i + 1"
    using unat_add_lem [of i 1] by simp
  with \<open>unat i < unat bufferLength\<close> show "((rd, s, i + 1, xc, bufferLength, xd), (rd, s, i, buffer, bufferLength, g))
      \<in> measure (\<lambda>(rd, s, i, buffer, bufferLength, g). unat bufferLength - unat i)"
    by simp
qed

definition SoftSpi_write :: "wiring \<Rightarrow> SoftSpi \<Rightarrow> gpio \<Rightarrow> u8 list \<Rightarrow> u32 \<Rightarrow> (u8 list \<times> gpio) option" where
  "SoftSpi_write rd s g buffer bufferLength = write_loop rd s 0 buffer bufferLength g"

section \<open>The specification's reading of the engine\<close>

text \<open>
  The definitions of this section are not translations of code. They write down what the
  specification says, so that the code above can be compared with it.
\<close>

subsection \<open>The byte exchange, as the specification words it\<close>

text \<open>
  ``Iterates 8 times, most-significant bit first. On each iteration: extract the current
  top bit of \<open>outByte\<close> (mask 0x80), left-shift \<open>outByte\<close> by 1 to expose the next bit,
  call \<open>exchangeBit\<close>, and accumulate the returned bit into \<open>inByte\<close> by left-shifting the
  accumulator and OR-ing in 0 or 1.''
\<close>

fun exchangeByte_iter ::
    "nat \<Rightarrow> wiring \<Rightarrow> SoftSpi \<Rightarrow> u8 \<Rightarrow> u8 \<Rightarrow> gpio \<Rightarrow> u8 \<times> gpio" where
  "exchangeByte_iter 0 rd s outByte inByte g = (inByte, g)"
| "exchangeByte_iter (Suc n) rd s outByte inByte g =
     (let top = outByte AND 0x80;
          outByte1 = push_bit 1 outByte;
          (r, g1) = writeBit rd s g top;
          inByte1 = push_bit 1 inByte OR (if r = 0 then 0 else 1)
      in exchangeByte_iter n rd s outByte1 inByte1 g1)"

definition exchangeByte_spec :: "wiring \<Rightarrow> SoftSpi \<Rightarrow> gpio \<Rightarrow> u8 \<Rightarrow> u8 \<times> gpio" where
  "exchangeByte_spec rd s g outByte = exchangeByte_iter 8 rd s outByte 0 g"

text \<open>
  The same exchange seen from the line: a given list of output values is handed to
  \<open>writeBit\<close> one after the other, and the answers are shifted into the accumulator.
\<close>

fun exchange_bits :: "wiring \<Rightarrow> SoftSpi \<Rightarrow> u8 list \<Rightarrow> u8 \<Rightarrow> gpio \<Rightarrow> u8 \<times> gpio" where
  "exchange_bits rd s [] acc g = (acc, g)"
| "exchange_bits rd s (x # xs) acc g =
     (let (r, g1) = writeBit rd s g x
      in exchange_bits rd s xs (push_bit 1 acc OR (if r = 0 then 0 else 1)) g1)"

text \<open>Loopback: the input line always reads the level last driven on the output line.\<close>

definition loopback :: "wiring \<Rightarrow> bool" where
  "loopback rd \<longleftrightarrow> (\<forall>w. rd w MISO = level w MOSI)"

subsection \<open>The transfer, as the specification words it\<close>

text \<open>
  ``For each byte position in the buffer, in order, calls \<open>exchangeByte\<close> on that
  position's current value and overwrites that same position with the returned value.
  After every byte, including the final one, waits for \<open>InterByteDelay\<close>.''
\<close>

primrec transfer_spec :: "wiring \<Rightarrow> SoftSpi \<Rightarrow> gpio \<Rightarrow> u8 list \<Rightarrow> u8 list \<times> gpio" where
  "transfer_spec rd s g [] = ([], g)"
| "transfer_spec rd s g (b # bs) =
     (let (r, g1) = writeByte rd s g b;
          g2 = usleepByCounting g1 (m_betweenByteSleepCount s);
          (rs, g3) = transfer_spec rd s g2 bs
      in (r # rs, g3))"

text \<open>The number of busy waits the log records.\<close>

fun is_Spin :: "event \<Rightarrow> bool" where
  "is_Spin (Spin c) = True"
| "is_Spin e = False"

definition delays :: "gpio \<Rightarrow> nat" where
  "delays g = length (filter is_Spin (log g))"

subsection \<open>The half period, as the specification words it\<close>

text \<open>
  ``\<open>halfPeriodIterations = round((1/hz) * LOOPS_PER_SECOND / 2)\<close>. Clamps the result to a
  minimum of 1.'' The formula is read in exact arithmetic, with rounding to the nearest
  integer.
\<close>

definition halfPeriodIterations_spec :: "nat \<Rightarrow> nat \<Rightarrow> int" where
  "halfPeriodIterations_spec LOOPS_PER_SECOND hz =
     max 1 (round ((1 / of_nat hz) * of_nat LOOPS_PER_SECOND / 2 :: rat))"

section \<open>Auxiliary facts\<close>

subsection \<open>Pins and log\<close>

lemma level_write [simp]: "level (mraa_gpio_write g p v) = (level g)(p := v)"
  by (simp add: mraa_gpio_write_def)

lemma log_write [simp]: "log (mraa_gpio_write g p v) = log g @ [GpioWrite p v]"
  by (simp add: mraa_gpio_write_def)

subsection \<open>Bits of a byte\<close>

lemma bit_128_int: "bit (128 :: int) k \<longleftrightarrow> k = 7"
proof -
  have "bit (2 ^ 7 :: int) k \<longleftrightarrow> k = 7"
    by (simp only: bit_exp_iff) auto
  then show ?thesis by simp
qed

lemma and_0x80: "byte AND 0x80 = (if bit byte 7 then 0x80 else 0)" for byte :: u8
  by (rule bit_eqI) (auto simp: bit_and_iff bit_128_int)

lemma top_bit: "byte AND 0x80 = 0 \<longleftrightarrow> \<not> bit byte 7" for byte :: u8
  by (simp add: and_0x80)

lemma bit_double_u8: "bit (w * 2) k \<longleftrightarrow> 0 < k \<and> k < 8 \<and> bit w (k - 1)" for w :: u8
proof -
  have "bit (push_bit 1 w) k \<longleftrightarrow> 0 < k \<and> k < 8 \<and> bit w (k - 1)"
    by (simp only: bit_push_bit_iff) (auto dest: bit_imp_le_length)
  then show ?thesis by simp
qed

lemma acc_step:
  fixes acc byte :: u8
  assumes "n < 8"
  shows "push_bit n (push_bit 1 acc OR of_bool (bit byte 7)) OR drop_bit (8 - n) (push_bit 1 byte)
       = push_bit (Suc n) acc OR drop_bit (7 - n) byte"
proof (rule bit_eqI)
  fix k assume "possible_bit TYPE(u8) k"
  then have k: "k < 8" by simp
  show "bit (push_bit n (push_bit 1 acc OR of_bool (bit byte 7))
             OR drop_bit (8 - n) (push_bit 1 byte)) k
      = bit (push_bit (Suc n) acc OR drop_bit (7 - n) byte) k"
  proof (cases "k < n")
    case True
    with assms k have "8 - n + k = Suc (7 - n + k)" "7 - n + k < 8" by simp_all
    with True k show ?thesis
      by (auto simp add: bit_or_iff bit_push_bit_iff bit_drop_bit_eq bit_double_u8)
  next
    case False
    then have "k = n \<or> (\<exists>j. k = Suc (n + j))" by presburger
    then show ?thesis
    proof
      assume "k = n"
      with assms show ?thesis
        by (auto simp add: bit_or_iff bit_push_bit_iff bit_drop_bit_eq bit_of_bool_iff
              bit_double_u8 dest: bit_imp_le_length)
    next
      assume "\<exists>j. k = Suc (n + j)"
      then obtain j where "k = Suc (n + j)" ..
      with assms k show ?thesis
        by (auto simp add: bit_or_iff bit_push_bit_iff bit_drop_bit_eq bit_of_bool_iff
              bit_double_u8 dest: bit_imp_le_length)
    qed
  qed
qed

subsection \<open>The loop of writeByte\<close>

lemma writeByte_loop_iter:
  "0 \<le> i \<Longrightarrow> i \<le> 8 \<Longrightarrow>
   writeByte_loop rd s i byte result g = exchangeByte_iter (nat (8 - i)) rd s byte result g"
proof (induction rd s i byte result g rule: writeByte_loop.induct)
  case (1 rd s i byte result g)
  show ?case
  proof (cases "i < 8")
    case True
    then have n: "nat (8 - i) = Suc (nat (8 - (i + 1)))" by simp
    obtain r g1 where w: "writeBit rd s g (byte AND 0x80) = (r, g1)"
      by (cases "writeBit rd s g (byte AND 0x80)")
    have "writeByte_loop rd s (i + 1) (push_bit 1 byte)
            (push_bit 1 result OR (if r = 0 then 0 else 1)) g1
        = exchangeByte_iter (nat (8 - (i + 1))) rd s (push_bit 1 byte)
            (push_bit 1 result OR (if r = 0 then 0 else 1)) g1"
      using "1.IH" [OF True refl refl w [symmetric] refl refl] "1.prems" True by simp
    then show ?thesis
      using True w by (subst writeByte_loop.simps, subst n) (simp add: Let_def)
  next
    case False
    with "1.prems" have "i = 8" by simp
    then show ?thesis by (subst writeByte_loop.simps) simp
  qed
qed

lemma writeByte_iter8: "writeByte rd s g b = exchangeByte_iter 8 rd s b 0 g"
  using writeByte_loop_iter [of 0 rd s b 0 g]
  by (simp add: writeByte_def del: writeByte_loop.simps)

lemma iter_bits:
  "n \<le> 8 \<Longrightarrow> exchangeByte_iter n rd s byte acc g
     = exchange_bits rd s (map (\<lambda>k. if bit byte (7 - k) then 0x80 else 0) [0..<n]) acc g"
proof (induction n arbitrary: byte acc g)
  case 0
  show ?case by simp
next
  case (Suc n)
  have sh: "map (\<lambda>k. if bit byte (7 - Suc k) then 0x80 else 0) [0..<n]
      = map (\<lambda>k. if bit (push_bit 1 byte) (7 - k) then (0x80::u8) else 0) [0..<n]"
  proof (rule map_cong [OF refl])
    fix k assume "k \<in> set [0..<n]"
    with Suc.prems have k: "k < 7" by simp
    then have "bit (push_bit 1 byte) (7 - k) = bit byte (7 - Suc k)"
      by (simp only: bit_push_bit_iff) (auto simp: Suc_diff_Suc)
    then show "(if bit byte (7 - Suc k) then 0x80 else 0)
        = (if bit (push_bit 1 byte) (7 - k) then (0x80::u8) else 0)"
      by (simp only:)
  qed
  have "[0..<Suc n] = 0 # map Suc [0..<n]"
    by (simp only: map_Suc_upt) (simp add: upt_conv_Cons del: upt_Suc)
  then have l: "map (\<lambda>k. if bit byte (7 - k) then 0x80 else 0) [0..<Suc n]
      = (byte AND 0x80)
        # map (\<lambda>k. if bit (push_bit 1 byte) (7 - k) then (0x80::u8) else 0) [0..<n]"
    by (simp only: list.map map_map o_def and_0x80 [symmetric] sh diff_zero)
  from Suc.prems have "n \<le> 8" by simp
  note IH = Suc.IH [OF this]
  show ?case
    by (simp only: l exchangeByte_iter.simps exchange_bits.simps Let_def IH)
qed

subsection \<open>Loopback\<close>

lemma writeBit_loopback:
  assumes "loopback rd"
    and "m_mode s = 0 \<or> m_mode s = 1 \<or> m_mode s = 2 \<or> m_mode s = 3"
  shows "fst (writeBit rd s g x) = (if x = 0 then 0 else 1)"
  using assms(2)
  by (auto simp: writeBit_def Let_def mraa_gpio_write_def mraa_gpio_read_def
        usleepByCounting_def assms(1) [unfolded loopback_def, rule_format])

lemma iter_loopback:
  assumes "loopback rd"
    and "m_mode s = 0 \<or> m_mode s = 1 \<or> m_mode s = 2 \<or> m_mode s = 3"
  shows "n \<le> 8 \<Longrightarrow>
    fst (exchangeByte_iter n rd s byte acc g) = push_bit n acc OR drop_bit (8 - n) byte"
proof (induction n arbitrary: byte acc g)
  case 0
  show ?case by (simp add: drop_bit_eq_zero_iff_not_bit_last)
next
  case (Suc n)
  obtain r g1 where w: "writeBit rd s g (byte AND 0x80) = (r, g1)"
    by (cases "writeBit rd s g (byte AND 0x80)")
  from writeBit_loopback [OF assms, of g "byte AND 0x80"] w
  have "r = (if byte AND 0x80 = 0 then 0 else 1)" by simp
  then have r: "(if r = 0 then 0 else 1) = (of_bool (bit byte 7) :: u8)"
    by (simp add: top_bit)
  from Suc.prems have n: "n \<le> 8" "n < 8" by simp_all
  have "fst (exchangeByte_iter (Suc n) rd s byte acc g)
      = fst (exchangeByte_iter n rd s (push_bit 1 byte)
               (push_bit 1 acc OR of_bool (bit byte 7)) g1)"
    by (simp only: exchangeByte_iter.simps Let_def w prod.case r)
  also have "\<dots> = push_bit n (push_bit 1 acc OR of_bool (bit byte 7))
                     OR drop_bit (8 - n) (push_bit 1 byte)"
    by (rule Suc.IH [OF n(1)])
  also have "\<dots> = push_bit (Suc n) acc OR drop_bit (7 - n) byte"
    by (rule acc_step [OF n(2)])
  finally show ?case by simp
qed

lemma writeByte_loopback_fst:
  assumes "loopback rd"
    and "m_mode s = 0 \<or> m_mode s = 1 \<or> m_mode s = 2 \<or> m_mode s = 3"
  shows "fst (writeByte rd s g b) = b"
  using iter_loopback [OF assms, of 8 b 0 g]
  by (simp add: writeByte_iter8)

subsection \<open>A mode that is not handled\<close>

lemma writeBit_unhandled:
  assumes "m_mode s \<noteq> 0" "m_mode s \<noteq> 1" "m_mode s \<noteq> 2" "m_mode s \<noteq> 3"
  shows "writeBit rd s g x = (255, g\<lparr>log := log g @ [Printf (m_mode s)]\<rparr>)"
  using assms by (simp add: writeBit_def printf_unhandled_def)

lemma iter_unhandled:
  assumes "m_mode s \<noteq> 0" "m_mode s \<noteq> 1" "m_mode s \<noteq> 2" "m_mode s \<noteq> 3"
  shows "exchangeByte_iter n rd s byte acc g
    = (push_bit n acc OR mask n, g\<lparr>log := log g @ replicate n (Printf (m_mode s))\<rparr>)"
proof (induction n arbitrary: byte acc g)
  case 0
  show ?case by simp
next
  case (Suc n)
  have "push_bit n (push_bit 1 acc OR 1) OR mask n = push_bit (Suc n) acc OR mask (Suc n)"
    by (rule bit_eqI)
      (auto simp: bit_or_iff bit_push_bit_iff bit_mask_iff bit_double_u8 bit_1_iff bit_exp_iff
         less_Suc_eq)
  then show ?case
    by (simp add: writeBit_unhandled [OF assms] Suc.IH replicate_app_Cons_same
          del: push_bit_Suc)
qed

subsection \<open>The loop of write\<close>

lemma write_loop_spec:
  "unat i \<le> length buffer \<Longrightarrow> length buffer = unat n \<Longrightarrow>
   write_loop rd s i buffer n g
     = Some (take (unat i) buffer @ fst (transfer_spec rd s g (drop (unat i) buffer)),
             snd (transfer_spec rd s g (drop (unat i) buffer)))"
proof (induction rd s i buffer n g rule: write_loop.induct)
  case (1 rd s i buffer n g)
  show ?case
  proof (cases "i < n")
    case False
    then have "unat n \<le> unat i" by (simp add: word_less_nat_alt)
    with "1.prems" have "unat i = length buffer" by simp
    with False show ?thesis by (subst write_loop.simps) simp
  next
    case True
    then have lt: "unat i < unat n" by (simp add: word_less_nat_alt)
    moreover have "unat n < 2 ^ 32" using unsigned_less [of n] by simp
    ultimately have "unat i + unat (1 :: u32) < 2 ^ LENGTH(32)" by simp
    then have suc: "unat (i + 1) = Suc (unat i)"
      using unat_add_lem [of i 1] by simp
    from lt "1.prems" have il: "unat i < length buffer" by simp
    obtain r g1 where w: "writeByte rd s g (buffer ! unat i) = (r, g1)"
      by (cases "writeByte rd s g (buffer ! unat i)")
    define g2 where "g2 = usleepByCounting g1 (m_betweenByteSleepCount s)"
    define buffer1 where "buffer1 = buffer[unat i := r]"
    have ih: "write_loop rd s (i + 1) buffer1 n g2
        = Some (take (unat (i + 1)) buffer1 @ fst (transfer_spec rd s g2 (drop (unat (i + 1)) buffer1)),
                snd (transfer_spec rd s g2 (drop (unat (i + 1)) buffer1)))"
      using "1.IH" [OF True il refl refl w [symmetric] buffer1_def g2_def] il "1.prems"
      by (simp add: suc buffer1_def)
    have d: "drop (unat i) buffer = buffer ! unat i # drop (Suc (unat i)) buffer"
      using il by (simp add: Cons_nth_drop_Suc)
    have t: "take (Suc (unat i)) buffer1 = take (unat i) buffer @ [r]"
      using il by (simp add: buffer1_def take_Suc_conv_app_nth)
    have d1: "drop (Suc (unat i)) buffer1 = drop (Suc (unat i)) buffer"
      by (simp add: buffer1_def)
    have "write_loop rd s i buffer n g = write_loop rd s (i + 1) buffer1 n g2"
      using True il w by (subst write_loop.simps) (simp add: Let_def g2_def buffer1_def)
    also note ih
    finally show ?thesis
      by (simp add: suc t d1 d w g2_def [symmetric] case_prod_beta)
  qed
qed

lemma write_spec:
  assumes "length buffer = unat bufferLength"
  shows "SoftSpi_write rd s g buffer bufferLength = Some (transfer_spec rd s g buffer)"
  using write_loop_spec [of 0 buffer bufferLength rd s g] assms
  by (simp add: SoftSpi_write_def del: write_loop.simps)

lemma transfer_spec_length: "length (fst (transfer_spec rd s g buffer)) = length buffer"
  by (induction buffer arbitrary: g) (simp_all add: Let_def case_prod_beta)

lemma delays_writeBit:
  "delays (snd (writeBit rd s g x))
     = delays g + (if m_mode s = 0 \<or> m_mode s = 1 \<or> m_mode s = 2 \<or> m_mode s = 3 then 2 else 0)"
  by (auto simp: writeBit_def Let_def mraa_gpio_write_def mraa_gpio_read_def
        usleepByCounting_def printf_unhandled_def delays_def)

lemma delays_iter:
  "delays (snd (exchangeByte_iter n rd s byte acc g))
     = delays g + n * (if m_mode s = 0 \<or> m_mode s = 1 \<or> m_mode s = 2 \<or> m_mode s = 3 then 2 else 0)"
proof (induction n arbitrary: byte acc g)
  case 0
  show ?case by simp
next
  case (Suc n)
  obtain r g1 where w: "writeBit rd s g (byte AND 0x80) = (r, g1)"
    by (cases "writeBit rd s g (byte AND 0x80)")
  with delays_writeBit [of rd s g "byte AND 0x80"]
  have "delays g1 = delays g + (if m_mode s = 0 \<or> m_mode s = 1 \<or> m_mode s = 2 \<or> m_mode s = 3 then 2 else 0)"
    by simp
  then show ?case
    by (simp add: w Let_def Suc.IH del: push_bit_Suc)
qed

lemma delays_writeByte:
  "delays (snd (writeByte rd s g b))
     = delays g + (if m_mode s = 0 \<or> m_mode s = 1 \<or> m_mode s = 2 \<or> m_mode s = 3 then 16 else 0)"
  by (simp add: writeByte_iter8 delays_iter)

lemma delays_transfer:
  "delays (snd (transfer_spec rd s g buffer))
     = delays g + length buffer
       + length buffer * (if m_mode s = 0 \<or> m_mode s = 1 \<or> m_mode s = 2 \<or> m_mode s = 3 then 16 else 0)"
proof (induction buffer arbitrary: g)
  case Nil
  show ?case by simp
next
  case (Cons b bs)
  obtain r g1 where w: "writeByte rd s g b = (r, g1)"
    by (cases "writeByte rd s g b")
  with delays_writeByte [of rd s g b]
  have "delays g1 = delays g + (if m_mode s = 0 \<or> m_mode s = 1 \<or> m_mode s = 2 \<or> m_mode s = 3 then 16 else 0)"
    by simp
  moreover have "delays (usleepByCounting g1 c) = Suc (delays g1)" for c
    by (simp add: usleepByCounting_def delays_def)
  ultimately show ?case
    by (simp add: w Let_def Cons.IH case_prod_beta)
qed

lemma last_transfer:
  "buffer \<noteq> [] \<Longrightarrow> last (log (snd (transfer_spec rd s g buffer))) = Spin (m_betweenByteSleepCount s)"
proof (induction buffer arbitrary: g)
  case Nil
  then show ?case by simp
next
  case (Cons b bs)
  obtain r g1 where w: "writeByte rd s g b = (r, g1)"
    by (cases "writeByte rd s g b")
  show ?case
  proof (cases bs)
    case Nil
    then show ?thesis by (simp add: w usleepByCounting_def)
  next
    case (Cons c cs)
    then have "bs \<noteq> []" by simp
    from Cons.IH [OF this] show ?thesis
      by (simp add: w Let_def case_prod_beta)
  qed
qed

subsection \<open>Rounding to an integer\<close>

lemma rhe_of_int: "round_half_even (of_int n) = n"
  by (simp add: round_half_even_def)

lemma rhe_ge: "of_int n \<le> q \<Longrightarrow> n \<le> round_half_even q"
proof -
  assume "of_int n \<le> q"
  then have "n \<le> \<lfloor>q\<rfloor>" by (simp add: le_floor_iff)
  then show ?thesis by (simp add: round_half_even_def Let_def)
qed

lemma rhe_le: "q \<le> of_int n \<Longrightarrow> round_half_even q \<le> n"
proof -
  assume q: "q \<le> of_int n"
  show ?thesis
  proof (cases "of_int \<lfloor>q\<rfloor> = q")
    case True
    with q have "\<lfloor>q\<rfloor> \<le> n" by linarith
    moreover from True have "q - of_int \<lfloor>q\<rfloor> = 0" by linarith
    ultimately show ?thesis by (simp add: round_half_even_def Let_def)
  next
    case False
    then have "of_int \<lfloor>q\<rfloor> < q" by (simp add: less_le)
    with q have "of_int \<lfloor>q\<rfloor> < (of_int n :: rat)" by linarith
    then have "\<lfloor>q\<rfloor> < n" by simp
    then show ?thesis by (simp add: round_half_even_def Let_def)
  qed
qed

lemma rhe_mono: "p \<le> q \<Longrightarrow> round_half_even p \<le> round_half_even q"
proof -
  assume pq: "p \<le> q"
  then have fl: "\<lfloor>p\<rfloor> \<le> \<lfloor>q\<rfloor>" by (rule floor_mono)
  show ?thesis
  proof (cases "\<lfloor>p\<rfloor> = \<lfloor>q\<rfloor>")
    case True
    with pq have "p - of_int \<lfloor>p\<rfloor> \<le> q - of_int \<lfloor>q\<rfloor>" by simp
    with True show ?thesis by (auto simp: round_half_even_def Let_def)
  next
    case False
    with fl have "\<lfloor>p\<rfloor> + 1 \<le> \<lfloor>q\<rfloor>" by simp
    moreover have "round_half_even p \<le> \<lfloor>p\<rfloor> + 1" by (simp add: round_half_even_def Let_def)
    moreover have "\<lfloor>q\<rfloor> \<le> round_half_even q" by (simp add: round_half_even_def Let_def)
    ultimately show ?thesis by linarith
  qed
qed

lemma rhe_err: "q - 1 / 2 \<le> of_int (round_half_even q)"
proof -
  have "q < of_int \<lfloor>q\<rfloor> + 1" by linarith
  then show ?thesis
    by (auto simp: round_half_even_def Let_def not_less)
qed

subsection \<open>The binade of a number\<close>

lemma bitlen_powi:
  assumes "0 < p"
  shows "(2::rat) powi (bitlen p - 1) \<le> of_int p" and "of_int p < (2::rat) powi bitlen p"
proof -
  from assms have b: "1 \<le> bitlen p"
    using bitlen_eq_zero_iff [of p] bitlen_nonneg [of p] by linarith
  from bitlen_bounds [OF assms]
  have lo: "2 ^ nat (bitlen p - 1) \<le> p" and hi: "p < 2 ^ nat (bitlen p)" by simp_all
  from lo have "(of_int (2 ^ nat (bitlen p - 1)) :: rat) \<le> of_int p"
    by (simp only: of_int_le_iff)
  with b show "(2::rat) powi (bitlen p - 1) \<le> of_int p"
    by (simp add: power_int_nonneg_exp)
  from hi have "(of_int p :: rat) < of_int (2 ^ nat (bitlen p))"
    by (simp only: of_int_less_iff)
  with b show "of_int p < (2::rat) powi bitlen p"
    by (simp add: power_int_nonneg_exp)
qed

lemma binade_bounds:
  assumes "x \<noteq> 0"
  shows "2 powi binade x \<le> \<bar>x\<bar>" and "\<bar>x\<bar> < 2 powi (binade x + 1)"
proof -
  obtain p q where pq: "quotient_of \<bar>x\<bar> = (p, q)"
    by (cases "quotient_of \<bar>x\<bar>")
  then have q: "0 < q" by (rule quotient_of_denom_pos)
  from pq have x: "\<bar>x\<bar> = of_int p / of_int q" by (rule quotient_of_div)
  from assms have "0 < \<bar>x\<bar>" by simp
  with x q have p: "0 < p" by (simp add: zero_less_divide_iff)
  define k where "k = bitlen p - bitlen q"
  have "\<bar>x\<bar> < 2 powi bitlen p / 2 powi (bitlen q - 1)"
    unfolding x using p q bitlen_powi [OF p] bitlen_powi [OF q]
    by (intro frac_less) simp_all
  also have "\<dots> = 2 powi (k + 1)"
    by (simp add: k_def power_int_diff [symmetric] algebra_simps)
  finally have hi: "\<bar>x\<bar> < 2 powi (k + 1)" .
  have "2 powi (bitlen p - 1) / 2 powi bitlen q \<le> \<bar>x\<bar>"
    unfolding x using p q bitlen_powi [OF p] bitlen_powi [OF q]
    by (intro frac_le) simp_all
  also have "2 powi (bitlen p - 1) / 2 powi bitlen q = (2::rat) powi (k - 1)"
    by (simp add: k_def power_int_diff [symmetric] algebra_simps)
  finally have lo: "2 powi (k - 1) \<le> \<bar>x\<bar>" .
  have b: "binade x = (if 2 powi k \<le> \<bar>x\<bar> then k else k - 1)"
    by (simp add: binade_def pq k_def Let_def)
  show "2 powi binade x \<le> \<bar>x\<bar>"
    using lo by (simp add: b)
  show "\<bar>x\<bar> < 2 powi (binade x + 1)"
    using hi by (simp add: b not_le)
qed

lemma binade_unique:
  assumes "2 powi e \<le> \<bar>x\<bar>" and "\<bar>x\<bar> < 2 powi (e + 1)"
  shows "binade x = e"
proof -
  from assms(1) have "0 < \<bar>x\<bar>"
    by (rule less_le_trans [rotated]) simp
  then have nz: "x \<noteq> 0" by simp
  note b = binade_bounds [OF nz]
  have "\<not> binade x < e"
  proof
    assume "binade x < e"
    then have "(2::rat) powi (binade x + 1) \<le> 2 powi e"
      by (intro power_int_increasing) simp_all
    with b(2) assms(1) show False by linarith
  qed
  moreover have "\<not> e < binade x"
  proof
    assume "e < binade x"
    then have "(2::rat) powi (e + 1) \<le> 2 powi binade x"
      by (intro power_int_increasing) simp_all
    with b(1) assms(2) show False by linarith
  qed
  ultimately show ?thesis by simp
qed

lemma binade_mono:
  assumes "0 < x" and "x \<le> y"
  shows "binade x \<le> binade y"
proof (rule ccontr)
  assume "\<not> binade x \<le> binade y"
  then have "(2::rat) powi (binade y + 1) \<le> 2 powi binade x"
    by (intro power_int_increasing) simp_all
  moreover from assms have "x \<noteq> 0" "y \<noteq> 0" by simp_all
  note binade_bounds(1) [OF this(1)] binade_bounds(2) [OF this(2)]
  ultimately show False using assms by simp
qed

subsection \<open>Rounding to a double\<close>

lemma ulp_pos: "0 < (2::rat) powi k"
  by simp

lemma ulp_scale: "(2::rat) powi e / 2 powi (e - 52) = 2 ^ 52"
proof -
  have "(2::rat) powi e / 2 powi (e - 52) = 2 powi (e - (e - 52))"
    by (rule power_int_diff [symmetric]) simp
  then show ?thesis by simp
qed

lemma ulp_scale_up: "(2::rat) powi (e + 1) / 2 powi (e - 52) = 2 ^ 53"
proof -
  have "(2::rat) powi (e + 1) / 2 powi (e - 52) = 2 powi (e + 1 - (e - 52))"
    by (rule power_int_diff [symmetric]) simp
  then show ?thesis by simp
qed

lemma double_round_bounds:
  assumes "0 < x"
  shows "2 powi binade x \<le> double_round x" and "double_round x \<le> 2 powi (binade x + 1)"
proof -
  define e where "e = binade x"
  define u :: rat where "u = 2 powi (e - 52)"
  have u: "0 < u" by (simp add: u_def)
  from assms have nz: "x \<noteq> 0" and ax: "\<bar>x\<bar> = x" by simp_all
  from binade_bounds [OF nz] have lo: "2 powi e \<le> x" and hi: "x < 2 powi (e + 1)"
    by (simp_all add: ax e_def)
  have dr: "double_round x = of_int (round_half_even (x / u)) * u"
    using nz by (simp add: double_round_def e_def u_def Let_def)
  from lo u have "2 powi e / u \<le> x / u" by (simp add: divide_right_mono)
  then have "of_int (2 ^ 52) \<le> x / u" by (simp add: u_def ulp_scale)
  then have "2 ^ 52 \<le> round_half_even (x / u)" by (rule rhe_ge)
  then have "(of_int (2 ^ 52) :: rat) \<le> of_int (round_half_even (x / u))"
    by (simp only: of_int_le_iff)
  with u have "of_int (2 ^ 52) * u \<le> of_int (round_half_even (x / u)) * u"
    by (simp only: mult_le_cancel_right_pos)
  moreover have "of_int (2 ^ 52) * u = 2 powi e"
    using ulp_scale [of e] u by (simp add: u_def field_simps)
  ultimately show "2 powi binade x \<le> double_round x"
    by (simp add: dr e_def)
  from hi u have "x / u \<le> 2 powi (e + 1) / u" by (simp add: divide_right_mono)
  then have "x / u \<le> of_int (2 ^ 53)" by (simp add: u_def ulp_scale_up)
  then have "round_half_even (x / u) \<le> 2 ^ 53" by (rule rhe_le)
  then have "(of_int (round_half_even (x / u)) :: rat) \<le> of_int (2 ^ 53)"
    by (simp only: of_int_le_iff)
  with u have "of_int (round_half_even (x / u)) * u \<le> of_int (2 ^ 53) * u"
    by (simp only: mult_le_cancel_right_pos)
  moreover have "of_int (2 ^ 53) * u = 2 powi (e + 1)"
    using ulp_scale_up [of e] u by (simp add: u_def field_simps)
  ultimately show "double_round x \<le> 2 powi (binade x + 1)"
    by (simp add: dr e_def)
qed

lemma double_round_pos: "0 < x \<Longrightarrow> 0 < double_round x"
  using double_round_bounds(1) [of x] ulp_pos [of "binade x"] by linarith

lemma double_round_mono:
  assumes "0 \<le> x" and "x \<le> y"
  shows "double_round x \<le> double_round y"
proof (cases "x = 0")
  case True
  show ?thesis
  proof (cases "y = 0")
    case True
    with \<open>x = 0\<close> show ?thesis by simp
  next
    case False
    with assms have "0 < y" by simp
    from double_round_pos [OF this] \<open>x = 0\<close> show ?thesis
      by (simp add: double_round_def)
  qed
next
  case False
  with assms have x: "0 < x" and y: "0 < y" by simp_all
  from binade_mono [OF x assms(2)] have "binade x = binade y \<or> binade x + 1 \<le> binade y"
    by linarith
  then show ?thesis
  proof
    assume e: "binade x = binade y"
    define u :: rat where "u = 2 powi (binade y - 52)"
    have u: "0 < u" by (simp add: u_def)
    with assms(2) have "x / u \<le> y / u" by (simp add: divide_right_mono)
    then have "round_half_even (x / u) \<le> round_half_even (y / u)" by (rule rhe_mono)
    then have "(of_int (round_half_even (x / u)) :: rat) \<le> of_int (round_half_even (y / u))"
      by (simp only: of_int_le_iff)
    with u have "of_int (round_half_even (x / u)) * u \<le> of_int (round_half_even (y / u)) * u"
      by (simp only: mult_le_cancel_right_pos)
    with x y show ?thesis
      by (simp add: double_round_def e u_def Let_def)
  next
    assume "binade x + 1 \<le> binade y"
    then have "(2::rat) powi (binade x + 1) \<le> 2 powi binade y"
      by (intro power_int_increasing) simp_all
    with double_round_bounds(2) [OF x] double_round_bounds(1) [OF y] show ?thesis
      by linarith
  qed
qed

lemma double_round_nat:
  assumes "n < 2 ^ 53"
  shows "double_round (of_nat n) = of_nat n"
proof (cases "n = 0")
  case True
  then show ?thesis by (simp add: double_round_def)
next
  case False
  define x :: rat where "x = of_nat n"
  define e where "e = binade x"
  define u :: rat where "u = 2 powi (e - 52)"
  from False have x: "0 < x" "x \<noteq> 0" "\<bar>x\<bar> = x" by (simp_all add: x_def)
  from binade_bounds [OF x(2)] have lo: "2 powi e \<le> x" and hi: "x < 2 powi (e + 1)"
    by (simp_all add: x(3) e_def)
  from assms have "(of_nat n :: rat) < of_nat (2 ^ 53)"
    by (simp only: of_nat_less_iff)
  then have "x < 2 powi 53" by (simp add: x_def)
  with lo have "(2::rat) powi e < 2 powi 53" by linarith
  then have "e < 53" by (rule power_int_le_imp_less_exp [rotated]) simp_all
  then have e: "0 \<le> 52 - e" by simp
  have "u = 2 powi (- (52 - e))" by (simp add: u_def)
  also have "\<dots> = inverse (2 powi (52 - e))" by (rule power_int_minus)
  also have "\<dots> = inverse (2 ^ nat (52 - e))" by (simp only: power_int_nonneg_exp [OF e])
  finally have u: "u = inverse (2 ^ nat (52 - e))" .
  have "x / u = of_int (int n * 2 ^ nat (52 - e))"
    by (simp add: u x_def divide_inverse)
  then have "round_half_even (x / u) = int n * 2 ^ nat (52 - e)"
    by (simp only: rhe_of_int)
  then have "of_int (round_half_even (x / u)) * u = x"
    by (simp add: u x_def)
  with x(2) show ?thesis
    by (simp add: double_round_def Let_def e_def [symmetric] u_def [symmetric] x_def [symmetric])
qed

lemma double_round_rel:
  assumes "0 < x"
  shows "x * (1 - 1 / 2 ^ 53) \<le> double_round x"
proof -
  define e where "e = binade x"
  define u :: rat where "u = 2 powi (e - 52)"
  have u: "0 < u" by (simp add: u_def)
  from assms have nz: "x \<noteq> 0" and ax: "\<bar>x\<bar> = x" by simp_all
  from binade_bounds(1) [OF nz] have lo: "2 powi e \<le> x"
    by (simp add: ax e_def)
  have "u * 2 ^ 52 = 2 powi e"
    using ulp_scale [of e] by (simp add: u_def field_simps)
  with lo have ux: "u * 2 ^ 52 \<le> x" by simp
  have dr: "double_round x = of_int (round_half_even (x / u)) * u"
    using nz by (simp add: double_round_def e_def u_def Let_def)
  from rhe_err [of "x / u"] u
  have "(x / u - 1 / 2) * u \<le> of_int (round_half_even (x / u)) * u"
    by (simp only: mult_le_cancel_right_pos)
  moreover from u have "(x / u - 1 / 2) * u = x - u / 2"
    by (simp add: left_diff_distrib)
  ultimately have "x - u / 2 \<le> double_round x"
    by (simp only: dr)
  moreover from ux have "x * (1 - 1 / 2 ^ 53) \<le> x - u / 2"
    by (simp add: field_simps)
  ultimately show ?thesis by linarith
qed

subsection \<open>The half period count\<close>

lemma double_round_nonneg: "0 \<le> x \<Longrightarrow> 0 \<le> double_round x"
  using double_round_mono [of 0 x] by (simp add: double_round_def)

lemma double_round_1: "double_round 1 = 1"
  using double_round_nat [of 1] by simp

lemma double_round_2: "double_round 2 = 2"
  using double_round_nat [of 2] by simp

lemma double_round_half_max: "double_round (4294967295 / 2) = 4294967295 / 2"
  by code_simp

lemma unat_frequency:
  fixes frequency :: u32
  assumes "frequency \<noteq> 0"
  shows "0 < unat frequency" and "unat frequency < 2 ^ 53"
proof -
  from assms show "0 < unat frequency" by (simp add: unat_gt_0)
  have "unat frequency < 2 ^ 32" using unsigned_less [of frequency] by simp
  then show "unat frequency < 2 ^ 53" by simp
qed

lemma clockSleepCount_double_eq:
  assumes "L < 2 ^ 32" and "n = unat (frequency :: u32)"
  shows "clockSleepCount_double L frequency
    = double_round (double_round (double_round (1 / of_nat n) * of_nat L) / 2)"
proof -
  from assms(1) have L: "L < 2 ^ 53" by simp
  have "n < 2 ^ 32" using unsigned_less [of frequency] by (simp add: assms(2))
  then have n: "n < 2 ^ 53" by simp
  show ?thesis
    by (simp only: clockSleepCount_double_def double_div_def double_mul_def double_of_nat_def
          assms(2) [symmetric] double_round_nat [OF L] double_round_nat [OF n] double_round_1)
qed

lemma clockSleepCount_double_range:
  assumes "L < 2 ^ 32" and "frequency \<noteq> 0"
  shows "0 \<le> clockSleepCount_double L frequency"
    and "clockSleepCount_double L frequency < 2 ^ 31"
proof -
  define n where "n = unat frequency"
  define a where "a = double_round (1 / of_nat n)"
  define y where "y = double_round (a * of_nat L)"
  have d: "clockSleepCount_double L frequency = double_round (y / 2)"
    by (simp only: clockSleepCount_double_eq [OF assms(1) n_def] y_def a_def)
  from unat_frequency(1) [OF assms(2)] have n: "0 < n" by (simp add: n_def)
  then have "(1::rat) \<le> of_nat n" by simp
  then have "0 \<le> 1 / (of_nat n :: rat)" "1 / (of_nat n :: rat) \<le> 1" by simp_all
  then have a: "0 \<le> a" "a \<le> 1"
    using double_round_nonneg [of "1 / of_nat n"] double_round_mono [of "1 / of_nat n" 1]
    by (simp_all add: a_def double_round_1)
  from assms(1) have "L \<le> 4294967295" by simp
  then have "(of_nat L :: rat) \<le> of_nat 4294967295"
    by (simp only: of_nat_le_iff)
  then have L: "(of_nat L :: rat) \<le> 4294967295"
    by simp
  have "a * of_nat L \<le> 1 * of_nat L"
    using a(2) by (intro mult_right_mono) simp_all
  with L have p: "0 \<le> a * of_nat L" "a * of_nat L \<le> of_nat 4294967295"
    using a(1) by simp_all
  then have y: "0 \<le> y" "y \<le> 4294967295"
    using double_round_nonneg [of "a * of_nat L"]
      double_round_mono [of "a * of_nat L" "of_nat 4294967295"] double_round_nat [of 4294967295]
    by (simp_all add: y_def)
  then have "0 \<le> y / 2" "y / 2 \<le> 4294967295 / 2" by simp_all
  then have "0 \<le> double_round (y / 2)" "double_round (y / 2) \<le> 4294967295 / 2"
    using double_round_nonneg [of "y / 2"] double_round_mono [of "y / 2" "4294967295 / 2"]
    by (simp_all add: double_round_half_max)
  then show "0 \<le> clockSleepCount_double L frequency"
    and "clockSleepCount_double L frequency < 2 ^ 31"
    by (simp_all add: d)
qed

lemma setFrequency_value:
  assumes "L < 2 ^ 32" and "frequency \<noteq> 0"
  shows "setFrequency L s frequency
    = Some (s\<lparr>m_frequency := frequency,
              m_clockSleepCount := word_of_int \<lfloor>clockSleepCount_double L frequency\<rfloor>\<rparr>)"
    and "0 \<le> \<lfloor>clockSleepCount_double L frequency\<rfloor>"
    and "\<lfloor>clockSleepCount_double L frequency\<rfloor> < 2 ^ 31"
proof -
  note r = clockSleepCount_double_range [OF assms]
  from r(1) show f0: "0 \<le> \<lfloor>clockSleepCount_double L frequency\<rfloor>" by simp
  from r(2) have "clockSleepCount_double L frequency < of_int (2 ^ 31)" by simp
  then show f1: "\<lfloor>clockSleepCount_double L frequency\<rfloor> < 2 ^ 31"
    by (simp only: floor_less_iff)
  from f0 f1 r(1) have "double_to_int32 (clockSleepCount_double L frequency)
      = Some \<lfloor>clockSleepCount_double L frequency\<rfloor>"
    by (simp add: double_to_int32_def Let_def)
  with f0 assms(2) show "setFrequency L s frequency
    = Some (s\<lparr>m_frequency := frequency,
              m_clockSleepCount := word_of_int \<lfloor>clockSleepCount_double L frequency\<rfloor>\<rparr>)"
    by (simp add: setFrequency_def Let_def)
qed

lemma clockSleepCount_double_antimono:
  assumes "L < 2 ^ 32" and "0 < f1" and "f1 < f2"
  shows "clockSleepCount_double L f2 \<le> clockSleepCount_double L (f1 :: u32)"
proof -
  define n1 where "n1 = unat f1"
  define n2 where "n2 = unat f2"
  from assms(2) have "0 < n1" by (simp add: n1_def unat_gt_0)
  moreover from assms(3) have "n1 < n2" by (simp add: n1_def n2_def word_less_nat_alt)
  ultimately have "0 < (of_nat n1 :: rat)" "(of_nat n1 :: rat) \<le> of_nat n2"
    by simp_all
  then have "0 \<le> 1 / (of_nat n2 :: rat)" "1 / (of_nat n2 :: rat) \<le> 1 / of_nat n1"
    by (simp_all add: frac_le)
  then have a: "0 \<le> double_round (1 / of_nat n2)"
    "double_round (1 / of_nat n2) \<le> double_round (1 / of_nat n1)"
    by (simp_all add: double_round_nonneg double_round_mono)
  then have "0 \<le> double_round (1 / of_nat n2) * of_nat L"
    "double_round (1 / of_nat n2) * of_nat L \<le> double_round (1 / of_nat n1) * of_nat L"
    by (simp_all add: mult_right_mono)
  then have "0 \<le> double_round (double_round (1 / of_nat n2) * of_nat L) / 2"
    "double_round (double_round (1 / of_nat n2) * of_nat L) / 2
       \<le> double_round (double_round (1 / of_nat n1) * of_nat L) / 2"
    by (simp_all add: double_round_nonneg double_round_mono)
  then have "double_round (double_round (double_round (1 / of_nat n2) * of_nat L) / 2)
       \<le> double_round (double_round (double_round (1 / of_nat n1) * of_nat L) / 2)"
    by (rule double_round_mono)
  then show ?thesis
    by (simp only: clockSleepCount_double_eq [OF assms(1) n1_def]
          clockSleepCount_double_eq [OF assms(1) n2_def])
qed

lemma clockSleepCount_double_ge_1:
  assumes "L < 2 ^ 32" and "frequency \<noteq> 0" and "2 * unat frequency < L"
  shows "1 \<le> clockSleepCount_double L frequency"
proof -
  define n where "n = unat frequency"
  define a where "a = double_round (1 / of_nat n)"
  have d: "clockSleepCount_double L frequency = double_round (double_round (a * of_nat L) / 2)"
    by (simp only: clockSleepCount_double_eq [OF assms(1) n_def] a_def)
  from unat_frequency(1) [OF assms(2)] have n: "0 < n" by (simp add: n_def)
  then have n': "0 < (of_nat n :: rat)" by simp
  from assms(3) have "2 * n + 1 \<le> L" by (simp add: n_def)
  then have "(of_nat (2 * n + 1) :: rat) \<le> of_nat L"
    by (simp only: of_nat_le_iff)
  then have L: "2 * of_nat n + 1 \<le> (of_nat L :: rat)"
    by simp
  have "n < 2 ^ 32" using unsigned_less [of frequency] by (simp add: n_def)
  then have "2 * n + 1 \<le> 2 ^ 53" by simp
  then have "(of_nat (2 * n + 1) :: rat) \<le> of_nat (2 ^ 53)"
    by (simp only: of_nat_le_iff)
  then have nb: "2 * of_nat n + 1 \<le> (2 ^ 53 :: rat)"
    by simp
  from n' have "0 < 1 / (of_nat n :: rat)" by simp
  from double_round_rel [OF this] have a: "(1 / of_nat n) * (1 - 1 / 2 ^ 53) \<le> a"
    by (simp add: a_def)
  have "2 * of_nat n \<le> (2 * of_nat n + 1) * (1 - 1 / 2 ^ 53 :: rat)"
    using nb by (simp add: field_simps)
  then have "2 \<le> (1 / of_nat n) * (1 - 1 / 2 ^ 53) * (2 * of_nat n + 1 :: rat)"
    using n' by (simp add: field_simps)
  also have "\<dots> \<le> (1 / of_nat n) * (1 - 1 / 2 ^ 53) * of_nat L"
    using L n' by (intro mult_left_mono) simp_all
  also have "\<dots> \<le> a * of_nat L"
    using a by (intro mult_right_mono) simp_all
  finally have "2 \<le> a * of_nat L" .
  then have "2 \<le> double_round (a * of_nat L)"
    using double_round_mono [of 2 "a * of_nat L"] by (simp add: double_round_2)
  then have "1 \<le> double_round (a * of_nat L) / 2" by simp
  then show ?thesis
    using double_round_mono [of 1 "double_round (a * of_nat L) / 2"]
    by (simp add: d double_round_1)
qed

text \<open>
  At the highest frequency a \<^verbatim>\<open>uint32_t\<close> can hold, the count is 0 whatever the
  calibration constant below \<open>2 ^ 32\<close> is.
\<close>

lemma max_frequency_count_zero:
  assumes "L < 2 ^ 32"
  shows "setFrequency L s 0xFFFFFFFF = Some (s\<lparr>m_frequency := 0xFFFFFFFF, m_clockSleepCount := 0\<rparr>)"
proof -
  define a where "a = double_round (1 / of_nat 4294967295)"
  define y where "y = double_round (a * of_nat L)"
  have nz: "(0xFFFFFFFF :: u32) \<noteq> 0" by simp
  have "clockSleepCount_double L 0xFFFFFFFF
      = double_round (double_round (double_round (1 / of_nat 4294967295) * of_nat L) / 2)"
    by (rule clockSleepCount_double_eq [OF assms]) simp
  then have d: "clockSleepCount_double L 0xFFFFFFFF = double_round (y / 2)"
    by (simp only: y_def a_def)
  have "a \<le> double_round (1 / 2147483648)"
    unfolding a_def by (rule double_round_mono) simp_all
  also have "double_round (1 / 2147483648) = 1 / 2147483648" by code_simp
  finally have a: "a \<le> 1 / 2147483648" .
  from assms have "L \<le> 4294967295" by simp
  then have "(of_nat L :: rat) \<le> of_nat 4294967295" by (simp only: of_nat_le_iff)
  then have L: "(of_nat L :: rat) \<le> 4294967295" by simp
  have a0: "0 \<le> a" unfolding a_def by (rule double_round_nonneg) simp
  have "a * of_nat L \<le> (1 / 2147483648) * 4294967295"
    using a L a0 by (intro mult_mono) simp_all
  then have p: "a * of_nat L \<le> 4294967295 / 2147483648" by simp
  have "y \<le> double_round (4294967295 / 2147483648)"
    unfolding y_def using a0 p by (intro double_round_mono) simp_all
  also have "double_round (4294967295 / 2147483648) = 4294967295 / 2147483648" by code_simp
  finally have y: "y \<le> 4294967295 / 2147483648" .
  have y0: "0 \<le> y" unfolding y_def using a0 by (intro double_round_nonneg) simp
  have "double_round (y / 2) \<le> double_round (4294967295 / 4294967296)"
    using y y0 by (intro double_round_mono) simp_all
  also have "double_round (4294967295 / 4294967296) = 4294967295 / 4294967296" by code_simp
  finally have "clockSleepCount_double L 0xFFFFFFFF < 1" by (simp add: d)
  moreover have "0 \<le> clockSleepCount_double L 0xFFFFFFFF"
    by (rule clockSleepCount_double_range(1) [OF assms nz])
  ultimately have "\<lfloor>clockSleepCount_double L 0xFFFFFFFF\<rfloor> = 0"
    by (simp add: floor_eq_iff)
  then show ?thesis
    by (simp add: setFrequency_value(1) [OF assms nz])
qed

lemma floor_count_max_frequency:
  "\<lfloor>double_round (double_round (double_round (1 / 4294967295) * 100000000) / 2)\<rfloor> = 0"
  by code_simp

lemma floor_count_third:
  "\<lfloor>double_round (double_round (double_round (1 / 33333333) * 100000000) / 2)\<rfloor> = 1"
  by code_simp

lemma round_max: "round (1 / 4294967295 * 100000000 / 2 :: rat) = 0"
  by code_simp

lemma round_third: "round (1 / 33333333 * 100000000 / 2 :: rat) = 2"
  by code_simp

lemma halfPeriodIterations_spec_max: "halfPeriodIterations_spec 100000000 4294967295 = 1"
  unfolding halfPeriodIterations_spec_def of_nat_numeral
  by (simp only: round_max)

lemma halfPeriodIterations_spec_third: "halfPeriodIterations_spec 100000000 33333333 = 2"
  unfolding halfPeriodIterations_spec_def of_nat_numeral
  by (simp only: round_third)

section \<open>The claims\<close>

subsection \<open>setMode\<close>

text \<open>
  C1, as the specification states it: for every mode value outside \<open>{0,1,2,3}\<close>,
  \<open>setMode\<close> fails with an invalid-configuration error and leaves the configured mode,
  the derived CPOL and the level of the clock pin unchanged. The code has no such check.
  On a device in mode 3 (CPOL 1, clock high), \<open>setMode 4\<close> returns normally, the stored
  mode is 4, CPOL is 0 and the clock pin has been driven low.
\<close>

theorem C1_setMode_invalid_counterexample:
  "m_mode (fst (setMode \<lparr>m_frequency = 0, m_mode = 3, m_cpol = 1, m_clockSleepCount = 0,
       m_betweenByteSleepCount = 0\<rparr> \<lparr>level = (\<lambda>p. 0)(SCK := 1), log = []\<rparr> 4)) = 4
   \<and> m_cpol (fst (setMode \<lparr>m_frequency = 0, m_mode = 3, m_cpol = 1, m_clockSleepCount = 0,
       m_betweenByteSleepCount = 0\<rparr> \<lparr>level = (\<lambda>p. 0)(SCK := 1), log = []\<rparr> 4)) = 0
   \<and> level (snd (setMode \<lparr>m_frequency = 0, m_mode = 3, m_cpol = 1, m_clockSleepCount = 0,
       m_betweenByteSleepCount = 0\<rparr> \<lparr>level = (\<lambda>p. 0)(SCK := 1), log = []\<rparr> 4)) SCK = 0"
  by (simp add: setMode_def Let_def)

text \<open>
  C1, amended: for every mode value \<open>m\<close> outside \<open>{0,1,2,3}\<close>, \<open>setMode m\<close> does not fail.
  It replaces the configured mode by \<open>m\<close>; the derived CPOL is left as it was exactly when
  it was 0 before, and the level of the clock pin is left as it was exactly when it was 0
  before. Frequency, sleep counts and the data-out level are not touched.
\<close>

theorem C1_setMode_invalid_overwrites:
  assumes "m \<noteq> 0" "m \<noteq> 1" "m \<noteq> 2" "m \<noteq> 3"
  shows "m_mode (fst (setMode s g m)) = m
    \<and> (m_cpol (fst (setMode s g m)) = m_cpol s \<longleftrightarrow> m_cpol s = 0)
    \<and> (level (snd (setMode s g m)) SCK = level g SCK \<longleftrightarrow> level g SCK = 0)
    \<and> m_frequency (fst (setMode s g m)) = m_frequency s
    \<and> m_clockSleepCount (fst (setMode s g m)) = m_clockSleepCount s
    \<and> m_betweenByteSleepCount (fst (setMode s g m)) = m_betweenByteSleepCount s
    \<and> level (snd (setMode s g m)) MOSI = level g MOSI"
  using assms by (auto simp: setMode_def Let_def)

theorem C1_setMode_invalid_overwrites_witness:
  "m_mode (fst (setMode \<lparr>m_frequency = 0, m_mode = 1, m_cpol = 0, m_clockSleepCount = 0,
       m_betweenByteSleepCount = 0\<rparr> \<lparr>level = (\<lambda>p. 0), log = []\<rparr> 4)) = 4
   \<and> m_cpol (fst (setMode \<lparr>m_frequency = 0, m_mode = 1, m_cpol = 0, m_clockSleepCount = 0,
       m_betweenByteSleepCount = 0\<rparr> \<lparr>level = (\<lambda>p. 0), log = []\<rparr> 4)) = 0
   \<and> level (snd (setMode \<lparr>m_frequency = 0, m_mode = 1, m_cpol = 0, m_clockSleepCount = 0,
       m_betweenByteSleepCount = 0\<rparr> \<lparr>level = (\<lambda>p. 0), log = []\<rparr> 4)) SCK = 0"
  using C1_setMode_invalid_overwrites [of 4 "\<lparr>m_frequency = 0, m_mode = 1, m_cpol = 0,
       m_clockSleepCount = 0, m_betweenByteSleepCount = 0\<rparr>" "\<lparr>level = (\<lambda>p. 0), log = []\<rparr>"]
  by simp

text \<open>
  C5: for every valid mode \<open>m\<close> in \<open>{0,1,2,3}\<close>, \<open>setMode m\<close> stores the mode, derives CPOL
  by the table \<open>0 \<mapsto> 0, 1 \<mapsto> 0, 2 \<mapsto> 1, 3 \<mapsto> 1\<close>, and drives the clock pin to the level equal
  to that CPOL within the call itself: the write to the clock pin is the one event
  \<open>setMode\<close> appends to the log.
\<close>

theorem C5_setMode_valid:
  assumes "m = 0 \<or> m = 1 \<or> m = 2 \<or> m = 3"
  shows "m_mode (fst (setMode s g m)) = m
    \<and> m_cpol (fst (setMode s g m)) = [0, 0, 1, 1] ! nat m
    \<and> level (snd (setMode s g m)) SCK = m_cpol (fst (setMode s g m))
    \<and> log (snd (setMode s g m)) = log g @ [GpioWrite SCK (m_cpol (fst (setMode s g m)))]"
  using assms by (auto simp: setMode_def Let_def)

theorem C5_setMode_valid_witness:
  "m_cpol (fst (setMode \<lparr>m_frequency = 0, m_mode = 0, m_cpol = 0, m_clockSleepCount = 0,
       m_betweenByteSleepCount = 0\<rparr> \<lparr>level = (\<lambda>p. 0), log = []\<rparr> 3)) = 1
   \<and> level (snd (setMode \<lparr>m_frequency = 0, m_mode = 0, m_cpol = 0, m_clockSleepCount = 0,
       m_betweenByteSleepCount = 0\<rparr> \<lparr>level = (\<lambda>p. 0), log = []\<rparr> 3)) SCK = 1
   \<and> log (snd (setMode \<lparr>m_frequency = 0, m_mode = 0, m_cpol = 0, m_clockSleepCount = 0,
       m_betweenByteSleepCount = 0\<rparr> \<lparr>level = (\<lambda>p. 0), log = []\<rparr> 3)) = [GpioWrite SCK 1]"
  using C5_setMode_valid [of 3 "\<lparr>m_frequency = 0, m_mode = 0, m_cpol = 0, m_clockSleepCount = 0,
       m_betweenByteSleepCount = 0\<rparr>" "\<lparr>level = (\<lambda>p. 0), log = []\<rparr>"]
  by simp

text \<open>
  C10: for every mode value \<open>m\<close> outside \<open>{0,1,2,3}\<close>, \<open>setMode m\<close> stores \<open>m\<close> as the current
  mode, sets the derived CPOL to 0 and drives the clock pin to level 0.
\<close>

theorem C10_setMode_invalid_cpol0:
  assumes "m \<noteq> 0" "m \<noteq> 1" "m \<noteq> 2" "m \<noteq> 3"
  shows "m_mode (fst (setMode s g m)) = m
    \<and> m_cpol (fst (setMode s g m)) = 0
    \<and> level (snd (setMode s g m)) SCK = 0
    \<and> log (snd (setMode s g m)) = log g @ [GpioWrite SCK 0]"
  using assms by (simp add: setMode_def Let_def)

theorem C10_setMode_invalid_cpol0_witness:
  "m_mode (fst (setMode \<lparr>m_frequency = 0, m_mode = 3, m_cpol = 1, m_clockSleepCount = 0,
       m_betweenByteSleepCount = 0\<rparr> \<lparr>level = (\<lambda>p. 0)(SCK := 1), log = []\<rparr> 7)) = 7
   \<and> m_cpol (fst (setMode \<lparr>m_frequency = 0, m_mode = 3, m_cpol = 1, m_clockSleepCount = 0,
       m_betweenByteSleepCount = 0\<rparr> \<lparr>level = (\<lambda>p. 0)(SCK := 1), log = []\<rparr> 7)) = 0
   \<and> level (snd (setMode \<lparr>m_frequency = 0, m_mode = 3, m_cpol = 1, m_clockSleepCount = 0,
       m_betweenByteSleepCount = 0\<rparr> \<lparr>level = (\<lambda>p. 0)(SCK := 1), log = []\<rparr> 7)) SCK = 0"
  using C10_setMode_invalid_cpol0 [of 7 "\<lparr>m_frequency = 0, m_mode = 3, m_cpol = 1,
       m_clockSleepCount = 0, m_betweenByteSleepCount = 0\<rparr>"
       "\<lparr>level = (\<lambda>p. 0)(SCK := 1), log = []\<rparr>"]
  by simp

subsection \<open>writeBit\<close>

text \<open>
  C4: with CPOL 0 or 1, in mode 0 or 2 \<open>writeBit\<close> performs exactly: drive data-out to the
  bit; wait one half period; sample data-in; drive the clock to the level opposite CPOL;
  wait one half period; drive the clock back to CPOL; return the sample. In mode 1 or 3
  it performs exactly: drive the clock to the level opposite CPOL; drive data-out to the
  bit; wait one half period; drive the clock back to CPOL; sample data-in; wait one half
  period; return the sample. The level driven on data-out is 0 for the argument 0 and 1
  for any other argument; the sample is what the wiring presents at the instant of the
  read.
\<close>

theorem C4_writeBit_sequence:
  assumes "m_cpol s = 0 \<or> m_cpol s = 1"
  shows "(m_mode s = 0 \<or> m_mode s = 2 \<longrightarrow>
       (let lvl = (if b = 0 then 0 else 1);
            hp = m_clockSleepCount s;
            v = rd (g\<lparr>level := (level g)(MOSI := lvl),
                       log := log g @ [GpioWrite MOSI lvl, Spin hp]\<rparr>) MISO
        in fst (writeBit rd s g b) = word_of_int v
         \<and> log (snd (writeBit rd s g b)) =
             log g @ [GpioWrite MOSI lvl, Spin hp, GpioRead MISO v,
                      GpioWrite SCK (1 - m_cpol s), Spin hp, GpioWrite SCK (m_cpol s)]
         \<and> level (snd (writeBit rd s g b)) = (level g)(MOSI := lvl, SCK := m_cpol s)))
   \<and> (m_mode s = 1 \<or> m_mode s = 3 \<longrightarrow>
       (let lvl = (if b = 0 then 0 else 1);
            hp = m_clockSleepCount s;
            v = rd (g\<lparr>level := (level g)(SCK := m_cpol s, MOSI := lvl),
                       log := log g @ [GpioWrite SCK (1 - m_cpol s), GpioWrite MOSI lvl, Spin hp,
                                       GpioWrite SCK (m_cpol s)]\<rparr>) MISO
        in fst (writeBit rd s g b) = word_of_int v
         \<and> log (snd (writeBit rd s g b)) =
             log g @ [GpioWrite SCK (1 - m_cpol s), GpioWrite MOSI lvl, Spin hp,
                      GpioWrite SCK (m_cpol s), GpioRead MISO v, Spin hp]
         \<and> level (snd (writeBit rd s g b)) = (level g)(SCK := m_cpol s, MOSI := lvl)))"
  using assms
  by (auto simp: writeBit_def Let_def mraa_gpio_write_def mraa_gpio_read_def usleepByCounting_def
        fun_upd_twist)

theorem C4_writeBit_sequence_witness:
  "log (snd (writeBit (\<lambda>w p. level w MOSI)
       \<lparr>m_frequency = 0, m_mode = 0, m_cpol = 0, m_clockSleepCount = 5,
         m_betweenByteSleepCount = 0\<rparr> \<lparr>level = (\<lambda>p. 0), log = []\<rparr> 1))
     = [GpioWrite MOSI 1, Spin 5, GpioRead MISO 1, GpioWrite SCK 1, Spin 5, GpioWrite SCK 0]
   \<and> log (snd (writeBit (\<lambda>w p. level w MOSI)
       \<lparr>m_frequency = 0, m_mode = 3, m_cpol = 1, m_clockSleepCount = 5,
         m_betweenByteSleepCount = 0\<rparr> \<lparr>level = (\<lambda>p. 0)(SCK := 1), log = []\<rparr> 1))
     = [GpioWrite SCK 0, GpioWrite MOSI 1, Spin 5, GpioWrite SCK 1, GpioRead MISO 1, Spin 5]"
  using C4_writeBit_sequence [of "\<lparr>m_frequency = 0, m_mode = 0, m_cpol = 0,
         m_clockSleepCount = 5, m_betweenByteSleepCount = 0\<rparr>" 1 "\<lambda>w p. level w MOSI"
         "\<lparr>level = (\<lambda>p. 0), log = []\<rparr>"]
    C4_writeBit_sequence [of "\<lparr>m_frequency = 0, m_mode = 3, m_cpol = 1,
         m_clockSleepCount = 5, m_betweenByteSleepCount = 0\<rparr>" 1 "\<lambda>w p. level w MOSI"
         "\<lparr>level = (\<lambda>p. 0)(SCK := 1), log = []\<rparr>"]
  by (simp add: Let_def)

text \<open>
  C9: if the configured mode is outside \<open>{0,1,2,3}\<close>, \<open>writeBit\<close> returns 255 for every
  argument and only prints its diagnostic: no pin is written and none is read.
  Consequently \<open>writeByte\<close> returns 0xFF for every byte, having printed eight times.
\<close>

theorem C9_unhandled_mode_sentinel:
  assumes "m_mode s \<noteq> 0" "m_mode s \<noteq> 1" "m_mode s \<noteq> 2" "m_mode s \<noteq> 3"
  shows "writeBit rd s g x = (255, g\<lparr>log := log g @ [Printf (m_mode s)]\<rparr>)
    \<and> writeByte rd s g b = (0xFF, g\<lparr>log := log g @ replicate 8 (Printf (m_mode s))\<rparr>)"
  using iter_unhandled [OF assms, of 8 rd b 0 g] writeBit_unhandled [OF assms, of rd g x]
  by (simp add: writeByte_iter8 mask_eq_exp_minus_1 del: exchangeByte_iter.simps replicate.simps)

theorem C9_unhandled_mode_sentinel_witness:
  "writeByte (\<lambda>w p. 0) \<lparr>m_frequency = 0, m_mode = 4, m_cpol = 0, m_clockSleepCount = 5,
          m_betweenByteSleepCount = 0\<rparr> \<lparr>level = (\<lambda>p. 0), log = []\<rparr> 0
     = (0xFF, \<lparr>level = (\<lambda>p. 0), log = replicate 8 (Printf 4)\<rparr>)"
  using C9_unhandled_mode_sentinel [of "\<lparr>m_frequency = 0, m_mode = 4, m_cpol = 0,
          m_clockSleepCount = 5, m_betweenByteSleepCount = 0\<rparr>" "\<lambda>w p. 0"
          "\<lparr>level = (\<lambda>p. 0), log = []\<rparr>" 0 0]
  by (simp del: replicate.simps)

subsection \<open>writeByte\<close>

text \<open>
  C3: loopback round trip. If the data-in line always reads the level last driven on the
  data-out line, then for every byte \<open>b\<close> and every mode in \<open>{0,1,2,3}\<close>, \<open>writeByte\<close>
  returns \<open>b\<close>.
\<close>

theorem C3_writeByte_loopback:
  assumes "loopback rd"
    and "m_mode s = 0 \<or> m_mode s = 1 \<or> m_mode s = 2 \<or> m_mode s = 3"
  shows "fst (writeByte rd s g b) = b"
  using assms by (rule writeByte_loopback_fst)

theorem C3_writeByte_loopback_witness:
  "loopback (\<lambda>w p. level w MOSI)
   \<and> fst (writeByte (\<lambda>w p. level w MOSI)
        \<lparr>m_frequency = 0, m_mode = 2, m_cpol = 1, m_clockSleepCount = 5,
          m_betweenByteSleepCount = 0\<rparr> \<lparr>level = (\<lambda>p. 0)(SCK := 1), log = []\<rparr> 0xA5) = 0xA5"
proof -
  have l: "loopback (\<lambda>w p. level w MOSI)"
    by (simp add: loopback_def)
  from C3_writeByte_loopback [OF l, of "\<lparr>m_frequency = 0, m_mode = 2, m_cpol = 1,
          m_clockSleepCount = 5, m_betweenByteSleepCount = 0\<rparr>"
          "\<lparr>level = (\<lambda>p. 0)(SCK := 1), log = []\<rparr>" "0xA5"] l
  show ?thesis by simp
qed

text \<open>
  C6: \<open>writeByte\<close> is the eight-fold iteration the specification describes (extract the top
  bit with mask 0x80, shift the outgoing byte left, call \<open>writeBit\<close> on the extracted bit,
  shift the accumulator left and OR in 0 or 1), and the accumulator after the eighth
  iteration is the result. The eight calls of \<open>writeBit\<close> get the bits of the byte from
  bit 7 down to bit 0, each as 0x80 or 0.
\<close>

theorem C6_writeByte_msb_first:
  "writeByte rd s g b = exchangeByte_spec rd s g b
   \<and> exchangeByte_spec rd s g b
     = exchange_bits rd s (map (\<lambda>k. if bit b (7 - k) then 0x80 else 0) [0..<8]) 0 g"
  using iter_bits [of 8 rd s b 0 g]
  by (simp add: writeByte_iter8 exchangeByte_spec_def del: exchangeByte_iter.simps upt_Suc)

subsection \<open>write\<close>

text \<open>
  C7: for a buffer of \<open>bufferLength\<close> bytes, \<open>write\<close> visits the positions in order and
  puts into each position the byte \<open>writeByte\<close> returned for the value that was there (one
  list, no second buffer), with one inter-byte wait after every byte, the last included:
  it is the transfer as the specification words it. The result has the length of the
  buffer; the log gains one busy wait per byte besides the sixteen half periods that a
  byte costs in a handled mode; and after a transfer of at least one byte the last event
  is the inter-byte wait.
\<close>

theorem C7_write_in_place:
  assumes "length buffer = unat bufferLength"
  shows "SoftSpi_write rd s g buffer bufferLength = Some (transfer_spec rd s g buffer)
    \<and> length (fst (transfer_spec rd s g buffer)) = length buffer
    \<and> delays (snd (transfer_spec rd s g buffer))
        = delays g + length buffer
          + length buffer
            * (if m_mode s = 0 \<or> m_mode s = 1 \<or> m_mode s = 2 \<or> m_mode s = 3 then 16 else 0)
    \<and> (buffer \<noteq> [] \<longrightarrow>
         last (log (snd (transfer_spec rd s g buffer))) = Spin (m_betweenByteSleepCount s))"
  using write_spec [OF assms, of rd s g] transfer_spec_length [of rd s g buffer]
    delays_transfer [of rd s g buffer] last_transfer [of buffer rd s g]
  by blast

theorem C7_write_in_place_witness:
  "map_option fst (SoftSpi_write (\<lambda>w p. level w MOSI)
       \<lparr>m_frequency = 0, m_mode = 0, m_cpol = 0, m_clockSleepCount = 5,
         m_betweenByteSleepCount = 9\<rparr> \<lparr>level = (\<lambda>p. 0), log = []\<rparr> [0xA5, 0x3C] 2)
     = Some [0xA5, 0x3C]
   \<and> delays (snd (transfer_spec (\<lambda>w p. level w MOSI)
       \<lparr>m_frequency = 0, m_mode = 0, m_cpol = 0, m_clockSleepCount = 5,
         m_betweenByteSleepCount = 9\<rparr> \<lparr>level = (\<lambda>p. 0), log = []\<rparr> [0xA5, 0x3C])) = 34
   \<and> last (log (snd (transfer_spec (\<lambda>w p. level w MOSI)
       \<lparr>m_frequency = 0, m_mode = 0, m_cpol = 0, m_clockSleepCount = 5,
         m_betweenByteSleepCount = 9\<rparr> \<lparr>level = (\<lambda>p. 0), log = []\<rparr> [0xA5, 0x3C]))) = Spin 9"
proof -
  have l: "loopback (\<lambda>w p. level w MOSI)"
    by (simp add: loopback_def)
  have r: "fst (transfer_spec (\<lambda>w p. level w MOSI)
       \<lparr>m_frequency = 0, m_mode = 0, m_cpol = 0, m_clockSleepCount = 5,
         m_betweenByteSleepCount = 9\<rparr> \<lparr>level = (\<lambda>p. 0), log = []\<rparr> [0xA5, 0x3C]) = [0xA5, 0x3C]"
    using writeByte_loopback_fst [OF l, of "\<lparr>m_frequency = 0, m_mode = 0, m_cpol = 0,
         m_clockSleepCount = 5, m_betweenByteSleepCount = 9\<rparr>"]
    by (simp add: case_prod_beta Let_def)
  have "length [0xA5, 0x3C :: u8] = unat (2 :: u32)" by simp
  from C7_write_in_place [OF this, of "\<lambda>w p. level w MOSI"
       "\<lparr>m_frequency = 0, m_mode = 0, m_cpol = 0, m_clockSleepCount = 5,
         m_betweenByteSleepCount = 9\<rparr>" "\<lparr>level = (\<lambda>p. 0), log = []\<rparr>"] r
  show ?thesis by (simp add: delays_def)
qed

subsection \<open>setFrequency\<close>

text \<open>
  C8: for a calibration constant below \<open>2 ^ 32\<close> and frequencies \<open>0 < f1 < f2\<close>,
  \<open>setFrequency\<close> succeeds for both and the half-period count stored for \<open>f2\<close> is at most
  the one stored for \<open>f1\<close>.
\<close>

theorem C8_setFrequency_antimono:
  assumes "LOOPS_PER_SECOND < 2 ^ 32" and "0 < f1" and "f1 < f2"
  shows "\<exists>s1 s2. setFrequency LOOPS_PER_SECOND s f1 = Some s1
      \<and> setFrequency LOOPS_PER_SECOND s' f2 = Some s2
      \<and> m_clockSleepCount s2 \<le> m_clockSleepCount s1"
proof -
  from assms have nz: "f1 \<noteq> 0" "f2 \<noteq> 0" by auto
  note v1 = setFrequency_value(1) [OF assms(1) nz(1), of s]
    setFrequency_value(2,3) [OF assms(1) nz(1)]
  note v2 = setFrequency_value(1) [OF assms(1) nz(2), of s']
    setFrequency_value(2,3) [OF assms(1) nz(2)]
  from clockSleepCount_double_antimono [OF assms]
  have "\<lfloor>clockSleepCount_double LOOPS_PER_SECOND f2\<rfloor>
      \<le> \<lfloor>clockSleepCount_double LOOPS_PER_SECOND f1\<rfloor>"
    by (rule floor_mono)
  moreover have "take_bit 32 \<lfloor>clockSleepCount_double LOOPS_PER_SECOND f1\<rfloor>
      = \<lfloor>clockSleepCount_double LOOPS_PER_SECOND f1\<rfloor>"
    using v1(2,3) by (simp add: take_bit_int_eq_self)
  moreover have "take_bit 32 \<lfloor>clockSleepCount_double LOOPS_PER_SECOND f2\<rfloor>
      = \<lfloor>clockSleepCount_double LOOPS_PER_SECOND f2\<rfloor>"
    using v2(2,3) by (simp add: take_bit_int_eq_self)
  ultimately have "(word_of_int \<lfloor>clockSleepCount_double LOOPS_PER_SECOND f2\<rfloor> :: u32)
      \<le> word_of_int \<lfloor>clockSleepCount_double LOOPS_PER_SECOND f1\<rfloor>"
    by (simp add: word_of_int_less_eq_iff)
  with v1(1) v2(1) show ?thesis by simp
qed

theorem C8_setFrequency_antimono_witness:
  "\<exists>s1 s2. setFrequency 100000000 \<lparr>m_frequency = 0, m_mode = 0, m_cpol = 0,
         m_clockSleepCount = 0, m_betweenByteSleepCount = 0\<rparr> 1000000 = Some s1
      \<and> setFrequency 100000000 \<lparr>m_frequency = 0, m_mode = 0, m_cpol = 0,
         m_clockSleepCount = 0, m_betweenByteSleepCount = 0\<rparr> 4000000 = Some s2
      \<and> m_clockSleepCount s2 \<le> m_clockSleepCount s1"
  using C8_setFrequency_antimono [of 100000000 1000000 4000000
     "\<lparr>m_frequency = 0, m_mode = 0, m_cpol = 0, m_clockSleepCount = 0,
         m_betweenByteSleepCount = 0\<rparr>" "\<lparr>m_frequency = 0, m_mode = 0, m_cpol = 0,
         m_clockSleepCount = 0, m_betweenByteSleepCount = 0\<rparr>"]
  by simp

text \<open>
  C2, as the specification states it: for every \<open>hz > 0\<close> the stored count is
  \<open>round((1/hz) * LOOPS_PER_SECOND / 2)\<close> clamped to a minimum of 1, hence at least 1. With
  the calibration constant 100000000, the frequency 4294967295 stores the count 0 where
  the formula gives 1: the guard of the code is \<^verbatim>\<open>c < 0\<close>, which a count of 0 passes. And
  the frequency 33333333 stores 1 where the formula gives 2: the conversion to
  \<^verbatim>\<open>int32_t\<close> drops the fraction 0.5 instead of rounding it.
\<close>

theorem C2_setFrequency_counterexample:
  "setFrequency 100000000 \<lparr>m_frequency = 0, m_mode = 0, m_cpol = 0, m_clockSleepCount = 0,
       m_betweenByteSleepCount = 0\<rparr> 4294967295
     = Some \<lparr>m_frequency = 4294967295, m_mode = 0, m_cpol = 0, m_clockSleepCount = 0,
         m_betweenByteSleepCount = 0\<rparr>
   \<and> halfPeriodIterations_spec 100000000 4294967295 = 1
   \<and> setFrequency 100000000 \<lparr>m_frequency = 0, m_mode = 0, m_cpol = 0, m_clockSleepCount = 0,
       m_betweenByteSleepCount = 0\<rparr> 33333333
     = Some \<lparr>m_frequency = 33333333, m_mode = 0, m_cpol = 0, m_clockSleepCount = 1,
         m_betweenByteSleepCount = 0\<rparr>
   \<and> halfPeriodIterations_spec 100000000 33333333 = 2"
proof -
  have L: "(100000000 :: nat) < 2 ^ 32" by simp
  have "clockSleepCount_double 100000000 4294967295
      = double_round (double_round (double_round (1 / of_nat 4294967295) * of_nat 100000000) / 2)"
    by (rule clockSleepCount_double_eq [OF L]) simp
  then have a: "\<lfloor>clockSleepCount_double 100000000 4294967295\<rfloor> = 0"
    by (simp only: of_nat_numeral floor_count_max_frequency)
  have "clockSleepCount_double 100000000 33333333
      = double_round (double_round (double_round (1 / of_nat 33333333) * of_nat 100000000) / 2)"
    by (rule clockSleepCount_double_eq [OF L]) simp
  then have b: "\<lfloor>clockSleepCount_double 100000000 33333333\<rfloor> = 1"
    by (simp only: of_nat_numeral floor_count_third)
  show ?thesis
    by (simp add: setFrequency_value(1) [OF L] a b halfPeriodIterations_spec_max halfPeriodIterations_spec_third)
qed

text \<open>
  C2, amended: for a calibration constant below \<open>2 ^ 32\<close> and every \<open>hz > 0\<close> for which the
  double-precision value of \<open>(1/hz) * LOOPS_PER_SECOND / 2\<close> is at least 1, \<open>setFrequency\<close>
  stores \<open>hz\<close> and sets the half-period count to that value with its fraction dropped
  (not rounded to the nearest integer), and the count is at least 1. The value is at
  least 1 whenever \<open>LOOPS_PER_SECOND > 2 * hz\<close>. Nothing is said about frequencies whose
  value is below 1.
\<close>

theorem C2_setFrequency_truncates:
  assumes "LOOPS_PER_SECOND < 2 ^ 32" and "0 < hz"
  shows "(1 \<le> clockSleepCount_double LOOPS_PER_SECOND hz \<longrightarrow>
       (\<exists>c. setFrequency LOOPS_PER_SECOND s hz = Some (s\<lparr>m_frequency := hz, m_clockSleepCount := c\<rparr>)
          \<and> uint c = \<lfloor>clockSleepCount_double LOOPS_PER_SECOND hz\<rfloor>
          \<and> 1 \<le> uint c))
    \<and> (2 * unat hz < LOOPS_PER_SECOND \<longrightarrow> 1 \<le> clockSleepCount_double LOOPS_PER_SECOND hz)"
proof (intro conjI impI)
  from assms(2) have nz: "hz \<noteq> 0" by auto
  note v = setFrequency_value(1) [OF assms(1) nz, of s] setFrequency_value(2,3) [OF assms(1) nz]
  {
    assume "2 * unat hz < LOOPS_PER_SECOND"
    then show "1 \<le> clockSleepCount_double LOOPS_PER_SECOND hz"
      by (rule clockSleepCount_double_ge_1 [OF assms(1) nz])
  }
  {
    assume d: "1 \<le> clockSleepCount_double LOOPS_PER_SECOND hz"
    have "uint (word_of_int \<lfloor>clockSleepCount_double LOOPS_PER_SECOND hz\<rfloor> :: u32)
        = \<lfloor>clockSleepCount_double LOOPS_PER_SECOND hz\<rfloor>"
      using v(2,3) by (simp add: uint_word_of_int take_bit_int_eq_self flip: take_bit_eq_mod)
    moreover from d have "1 \<le> \<lfloor>clockSleepCount_double LOOPS_PER_SECOND hz\<rfloor>"
      by simp
    ultimately show "\<exists>c. setFrequency LOOPS_PER_SECOND s hz
          = Some (s\<lparr>m_frequency := hz, m_clockSleepCount := c\<rparr>)
        \<and> uint c = \<lfloor>clockSleepCount_double LOOPS_PER_SECOND hz\<rfloor> \<and> 1 \<le> uint c"
      using v(1)
      by (intro exI [of _ "word_of_int \<lfloor>clockSleepCount_double LOOPS_PER_SECOND hz\<rfloor>"])
        simp
  }
qed

theorem C2_setFrequency_truncates_witness:
  "\<exists>c. setFrequency 100000000 \<lparr>m_frequency = 0, m_mode = 0, m_cpol = 0, m_clockSleepCount = 0,
       m_betweenByteSleepCount = 0\<rparr> 33333333
     = Some \<lparr>m_frequency = 33333333, m_mode = 0, m_cpol = 0, m_clockSleepCount = c,
         m_betweenByteSleepCount = 0\<rparr>
     \<and> 1 \<le> uint c"
proof -
  have L: "(100000000 :: nat) < 2 ^ 32" and hz: "0 < (33333333 :: u32)"
    and r: "2 * unat (33333333 :: u32) < 100000000"
    by simp_all
  note t = C2_setFrequency_truncates [OF L hz, of "\<lparr>m_frequency = 0, m_mode = 0,
       m_cpol = 0, m_clockSleepCount = 0, m_betweenByteSleepCount = 0\<rparr>"]
  from t r have "1 \<le> clockSleepCount_double 100000000 33333333" by blast
  with t obtain c where "setFrequency 100000000 \<lparr>m_frequency = 0, m_mode = 0, m_cpol = 0,
       m_clockSleepCount = 0, m_betweenByteSleepCount = 0\<rparr> 33333333
     = Some (\<lparr>m_frequency = 0, m_mode = 0, m_cpol = 0, m_clockSleepCount = 0,
         m_betweenByteSleepCount = 0\<rparr>\<lparr>m_frequency := 33333333, m_clockSleepCount := c\<rparr>)"
    and "1 \<le> uint c"
    by blast
  then show ?thesis by (intro exI [of _ c]) simp
qed

end
